theory Spec2Isabelle
  imports Main "HOL-Library.Word"
begin

section \<open>Strings\<close>

text \<open>
  A Python \<open>str\<close> is a sequence of Unicode code points; it is modelled as the list of
  its code points, so that \<open>length\<close> is Python's \<open>len\<close> and characters beyond
  \<open>0x7F\<close> are single elements.  \<open>py\<close> turns a literal of the source into that form.
\<close>

type_synonym ustr = "nat list"

definition py :: "string \<Rightarrow> ustr" where
  "py s = map of_char s"

text \<open>
  \<open>is_space\<close> is CPython's \<open>Py_UNICODE_ISSPACE\<close>, the test behind \<open>str.strip()\<close>,
  \<open>str.isspace()\<close> and the class \<open>\s\<close> of \<open>re\<close> on a \<open>str\<close> pattern.
\<close>

definition is_space :: "nat \<Rightarrow> bool" where
  "is_space c \<longleftrightarrow>
     (9 \<le> c \<and> c \<le> 13) \<or> (28 \<le> c \<and> c \<le> 32) \<or> c = 133 \<or> c = 160 \<or> c = 5760 \<or>
     (8192 \<le> c \<and> c \<le> 8202) \<or> c = 8232 \<or> c = 8233 \<or> c = 8239 \<or> c = 8287 \<or> c = 12288"

text \<open>The character class \<open>[^\x00-\x7F]\<close>.\<close>

definition non_ascii :: "nat \<Rightarrow> bool" where
  "non_ascii c \<longleftrightarrow> 127 < c"

text \<open>
  \<open>re.sub(X+, ' ', text)\<close> for a character class \<open>X\<close>: scanning from the left, every
  maximal run of characters of the class is replaced by one space.
\<close>

function sub_runs :: "(nat \<Rightarrow> bool) \<Rightarrow> ustr \<Rightarrow> ustr" where
  "sub_runs P [] = []"
| "sub_runs P (c # cs) =
     (if P c then 32 # sub_runs P (dropWhile P cs) else c # sub_runs P cs)"
  by pat_completeness auto
termination
  by (relation "measure (\<lambda>(P, cs). length cs)")
     (auto simp: length_dropWhile_le less_Suc_eq_le)

text \<open>\<open>str.strip()\<close> without argument.\<close>

definition strip :: "ustr \<Rightarrow> ustr" where
  "strip s = rev (dropWhile is_space (rev (dropWhile is_space s)))"

text \<open>\<open>clean_text\<close> of \<open>app.py\<close>.\<close>

definition clean_text :: "ustr \<Rightarrow> ustr" where
  "clean_text text =
     (if text = [] then []
      else strip (sub_runs non_ascii (sub_runs is_space text)))"

text \<open>
  A string in which every whitespace character is a single space standing alone: the
  shape that replacing whitespace runs leaves behind.
\<close>

fun single_spaced :: "ustr \<Rightarrow> bool" where
  "single_spaced [] = True"
| "single_spaced [c] = (is_space c \<longrightarrow> c = 32)"
| "single_spaced (c # d # cs) =
     ((is_space c \<longrightarrow> c = 32 \<and> \<not> is_space d) \<and> single_spaced (d # cs))"

text \<open>The 7-bit characters that are not whitespace.\<close>

definition ascii_non_space :: "nat \<Rightarrow> bool" where
  "ascii_non_space c \<longleftrightarrow> c < 128 \<and> \<not> is_space c"

section \<open>Values shared by the extractors\<close>

text \<open>
  The exceptions the extractors meet: \<open>ImportError\<close>, which selects the fallback of
  \<open>extract_pdf\<close>; \<open>AttributeError\<close>, raised by reading the name of a style that is
  \<open>None\<close>; and any other exception of a library call.
\<close>

datatype error = ImportError | AttributeError | OtherException

type_synonym bytes = "8 word list"

text \<open>The value of a block's \<open>'type'\<close> key.\<close>

datatype block_type = Page | Slide | Section | Heading | Document

text \<open>A block: the dictionary with the keys \<open>number\<close>, \<open>type\<close>, \<open>title\<close>, \<open>content\<close>
  and \<open>has_content\<close>.\<close>

record block =
  number :: nat
  btype :: block_type
  title :: ustr
  content :: ustr
  has_content :: bool

text \<open>An image: the dictionary with the keys \<open>id\<close>, \<open>slide\<close>, \<open>src\<close> and \<open>type\<close>.\<close>

record image =
  image_id :: ustr
  slide :: nat
  src :: ustr
  itype :: ustr

text \<open>\<open>str(n)\<close> of a non-negative integer, as the f-strings format it.\<close>

function str_of_nat :: "nat \<Rightarrow> ustr" where
  "str_of_nat n = (if n < 10 then [48 + n] else str_of_nat (n div 10) @ [48 + n mod 10])"
  by pat_completeness auto
termination
  by (relation "measure id") auto

declare str_of_nat.simps [simp del]

text \<open>
  \<open>base64.b64encode(...).decode('utf-8')\<close>.  \<open>b64_char\<close> is the standard alphabet
  \<open>A-Z a-z 0-9 + /\<close>; 61 is the padding character \<open>=\<close>.
\<close>

definition b64_char :: "nat \<Rightarrow> nat" where
  "b64_char n =
     (if n < 26 then 65 + n
      else if n < 52 then 97 + (n - 26)
      else if n < 62 then 48 + (n - 52)
      else if n = 62 then 43 else 47)"

fun b64encode :: "bytes \<Rightarrow> ustr" where
  "b64encode [] = []"
| "b64encode [a] =
     (let n = unat a
      in [b64_char (n div 4), b64_char ((n mod 4) * 16), 61, 61])"
| "b64encode [a, b] =
     (let n = unat a * 256 + unat b
      in [b64_char (n div 1024), b64_char (n div 16 mod 64), b64_char ((n mod 16) * 4), 61])"
| "b64encode (a # b # c # rest) =
     (let n = unat a * 65536 + unat b * 256 + unat c
      in [b64_char (n div 262144), b64_char (n div 4096 mod 64),
          b64_char (n div 64 mod 64), b64_char (n mod 64)] @ b64encode rest)"

text \<open>The data URI \<open>f"data:image/{ext};base64,{b64}"\<close>.\<close>

definition data_uri :: "ustr \<Rightarrow> bytes \<Rightarrow> ustr" where
  "data_uri ext image_bytes = py ''data:image/'' @ ext @ py '';base64,'' @ b64encode image_bytes"

text \<open>\<open>sep.join(xs)\<close> and \<open>s.split(sep)\<close> for a separator of one character.\<close>

fun join :: "ustr \<Rightarrow> ustr list \<Rightarrow> ustr" where
  "join sep [] = []"
| "join sep [x] = x"
| "join sep (x # y # ys) = x @ sep @ join sep (y # ys)"

fun split_on :: "nat \<Rightarrow> ustr \<Rightarrow> ustr list" where
  "split_on sep [] = [[]]"
| "split_on sep (c # cs) =
     (if c = sep then [] # split_on sep cs
      else (case split_on sep cs of
              [] \<Rightarrow> [[c]]
            | f # fs \<Rightarrow> (c # f) # fs))"

text \<open>The call returns: it does not leave by an exception.\<close>

definition returns :: "error + 'a \<Rightarrow> bool" where
  "returns r = (case r of Inl e \<Rightarrow> False | Inr x \<Rightarrow> True)"

text \<open>The projections of an extractor's result; a raised exception has neither.\<close>

definition result_blocks :: "error + block list \<times> image list \<Rightarrow> block list" where
  "result_blocks r = (case r of Inl e \<Rightarrow> [] | Inr (bs, ims) \<Rightarrow> bs)"

definition result_images :: "error + block list \<times> image list \<Rightarrow> image list" where
  "result_images r = (case r of Inl e \<Rightarrow> [] | Inr (bs, ims) \<Rightarrow> ims)"

section \<open>The paginated extractor\<close>

text \<open>
  What \<open>extract_pdf\<close> reads from the file.  \<open>fitz\<close> is the outcome of
  \<open>import fitz; fitz.open(filepath)\<close>: the pages, each with the text of \<open>get_text()\<close>
  and, for every entry of \<open>get_images(full=True)\<close>, the outcome of the statements in
  the \<open>try\<close> block (the image bytes and the extension, or an exception).
  \<open>pdfplumber\<close> is the outcome of importing and opening with the fallback library, each
  page with the outcome of \<open>extract_text()\<close>, which may be \<open>None\<close>.  \<open>raw_text\<close> is
  \<open>f.read().decode('utf-8', errors='ignore')\<close>.
\<close>

record pdf_page =
  page_text :: ustr
  page_images :: "(error + bytes \<times> ustr) list"

record pdf_file =
  fitz :: "error + pdf_page list"
  pdfplumber :: "error + (error + ustr option) list"
  raw_text :: ustr

definition page_block :: "nat \<Rightarrow> ustr \<Rightarrow> block" where
  "page_block page_num clean =
     \<lparr>number = page_num + 1, btype = Page,
      title = py ''Page '' @ str_of_nat (page_num + 1),
      content = clean, has_content = (length clean > 50)\<rparr>"

definition pdf_image :: "nat \<Rightarrow> nat \<Rightarrow> bytes \<times> ustr \<Rightarrow> image" where
  "pdf_image page_num img_index base_image =
     \<lparr>image_id = py ''pdf_p'' @ str_of_nat page_num @ py ''_img'' @ str_of_nat img_index,
      slide = page_num + 1,
      src = data_uri (snd base_image) (fst base_image),
      itype = py ''pdf''\<rparr>"

text \<open>The loop over \<open>enumerate(image_list)\<close>; an exception skips the image.\<close>

fun pdf_images :: "nat \<Rightarrow> nat \<Rightarrow> (error + bytes \<times> ustr) list \<Rightarrow> image list \<Rightarrow> image list" where
  "pdf_images page_num img_index [] all_images = all_images"
| "pdf_images page_num img_index (img # rest) all_images =
     (case img of
        Inl e \<Rightarrow> pdf_images page_num (Suc img_index) rest all_images
      | Inr base_image \<Rightarrow>
          pdf_images page_num (Suc img_index) rest
            (all_images @ [pdf_image page_num img_index base_image]))"

text \<open>The loop over \<open>range(len(doc))\<close>.\<close>

fun pdf_pages :: "nat \<Rightarrow> pdf_page list \<Rightarrow> block list \<Rightarrow> image list \<Rightarrow> block list \<times> image list" where
  "pdf_pages page_num [] slides_data all_images = (slides_data, all_images)"
| "pdf_pages page_num (page # rest) slides_data all_images =
     (let clean = clean_text (page_text page);
          slides_data' = (if clean \<noteq> [] then slides_data @ [page_block page_num clean]
                          else slides_data);
          all_images' = pdf_images page_num 0 (page_images page) all_images
      in pdf_pages (Suc page_num) rest slides_data' all_images')"

text \<open>
  The loop over \<open>enumerate(pdf.pages)\<close> of the fallback.  An exception leaves the loop;
  the blocks appended so far stay in \<open>text_content\<close>.
\<close>

fun plumber_pages :: "nat \<Rightarrow> (error + ustr option) list \<Rightarrow> block list \<Rightarrow> error option \<times> block list" where
  "plumber_pages i [] text_content = (None, text_content)"
| "plumber_pages i (page # rest) text_content =
     (case page of
        Inl e \<Rightarrow> (Some e, text_content)
      | Inr extracted \<Rightarrow>
          (let text = (case extracted of None \<Rightarrow> [] | Some t \<Rightarrow> t);
               clean = clean_text text
           in plumber_pages (Suc i) rest
                (if clean \<noteq> [] then text_content @ [page_block i clean] else text_content)))"

text \<open>The last resort: the whole file as one block.\<close>

definition raw_block :: "ustr \<Rightarrow> block" where
  "raw_block text =
     \<lparr>number = 1, btype = Page, title = py ''Document'',
      content = clean_text text, has_content = True\<rparr>"

definition pdf_fallback :: "pdf_file \<Rightarrow> block list" where
  "pdf_fallback f =
     (case pdfplumber f of
        Inl e \<Rightarrow> [raw_block (raw_text f)]
      | Inr pages \<Rightarrow>
          (case plumber_pages 0 pages [] of
             (None, text_content) \<Rightarrow> text_content
           | (Some e, text_content) \<Rightarrow> text_content @ [raw_block (raw_text f)]))"

definition extract_pdf :: "pdf_file \<Rightarrow> error + block list \<times> image list" where
  "extract_pdf f =
     (case fitz f of
        Inr doc \<Rightarrow> Inr (pdf_pages 0 doc [] [])
      | Inl ImportError \<Rightarrow> Inr (pdf_fallback f, [])
      | Inl e \<Rightarrow> Inl e)"

section \<open>The slide-deck extractor\<close>

text \<open>
  A shape of a slide: its \<open>text\<close> attribute, when it has one; the outcome of reading
  its \<open>shape_type\<close>, a value or \<open>None\<close>, or the exception that the library raises for
  a shape it does not recognise; and the outcome of the statements in the \<open>try\<close> block
  that reads the picture (the blob and the \<open>ext\<close> attribute, when the image has one,
  or an exception).  The file is the outcome of \<open>Presentation(filepath)\<close>: the slides,
  or an exception.
\<close>

record shape =
  shape_text :: "ustr option"
  shape_type :: "error + int option"
  shape_image :: "error + bytes \<times> ustr option"

type_synonym pptx_file = "error + shape list list"

definition pptx_image :: "nat \<Rightarrow> nat \<Rightarrow> bytes \<times> ustr option \<Rightarrow> image" where
  "pptx_image idx n img =
     \<lparr>image_id = py ''pptx_s'' @ str_of_nat idx @ py ''_img'' @ str_of_nat n,
      slide = idx,
      src = data_uri (case snd img of Some ext \<Rightarrow> ext | None \<Rightarrow> py ''png'') (fst img),
      itype = py ''pptx''\<rparr>"

text \<open>
  The body of the loop over \<open>slide.shapes\<close> is two statements: the first sorts the
  shape's text into title or body, on the state \<open>(slide_text, slide_title, has_title)\<close>;
  the second reads \<open>shape.shape_type\<close>, outside the \<open>try\<close>, so that an exception of
  that read leaves the extractor, and then collects the picture, where an exception is
  caught and skips it.
\<close>

definition shape_text_step ::
  "nat \<Rightarrow> shape \<Rightarrow> ustr list \<times> ustr \<times> bool \<Rightarrow> ustr list \<times> ustr \<times> bool" where
  "shape_text_step idx sh st =
     (case st of (slide_text, slide_title, has_title) \<Rightarrow>
        (case shape_text sh of
           None \<Rightarrow> (slide_text, slide_title, has_title)
         | Some t \<Rightarrow>
             if strip t \<noteq> [] then
               (if \<not> has_title \<and> length (strip t) < 100 \<and> idx = 1
                then (slide_text, strip t, True)
                else (slide_text @ [strip t], slide_title, has_title))
             else (slide_text, slide_title, has_title)))"

definition shape_image_step :: "nat \<Rightarrow> shape \<Rightarrow> image list \<Rightarrow> error + image list" where
  "shape_image_step idx sh images =
     (case shape_type sh of
        Inl e \<Rightarrow> Inl e
      | Inr ty \<Rightarrow>
          if ty = Some 13 then
            (case shape_image sh of
               Inl e \<Rightarrow> Inr images
             | Inr img \<Rightarrow> Inr (images @ [pptx_image idx (length images) img]))
          else Inr images)"

fun pptx_shapes ::
  "nat \<Rightarrow> shape list \<Rightarrow> (ustr list \<times> ustr \<times> bool) \<times> image list \<Rightarrow>
   error + (ustr list \<times> ustr \<times> bool) \<times> image list" where
  "pptx_shapes idx [] st = Inr st"
| "pptx_shapes idx (sh # rest) (txt, images) =
     (case shape_image_step idx sh images of
        Inl e \<Rightarrow> Inl e
      | Inr images' \<Rightarrow> pptx_shapes idx rest (shape_text_step idx sh txt, images'))"

text \<open>The title inference after the walk, and the block of the slide.\<close>

definition slide_block :: "nat \<Rightarrow> ustr list \<Rightarrow> ustr \<Rightarrow> bool \<Rightarrow> block" where
  "slide_block idx slide_text slide_title has_title =
     (let content = clean_text (join [10] slide_text);
          (slide_title', content') =
            (case split_on 46 content of
               [] \<Rightarrow> (slide_title, content)
             | l # ls \<Rightarrow>
                 if length l < 80 \<and> \<not> has_title
                 then (strip l, strip (join [46] ls))
                 else (slide_title, content))
      in \<lparr>number = idx, btype = Slide, title = slide_title', content = content',
          has_content = (length content' > 30)\<rparr>)"

text \<open>The loop over \<open>enumerate(prs.slides, 1)\<close>.\<close>

fun pptx_slides ::
  "nat \<Rightarrow> shape list list \<Rightarrow> block list \<Rightarrow> image list \<Rightarrow> error + block list \<times> image list" where
  "pptx_slides idx [] slides_data images = Inr (slides_data, images)"
| "pptx_slides idx (shapes # rest) slides_data images =
     (case pptx_shapes idx shapes (([], py ''Slide '' @ str_of_nat idx, False), images) of
        Inl e \<Rightarrow> Inl e
      | Inr ((slide_text, slide_title, has_title), images') \<Rightarrow>
          pptx_slides (Suc idx) rest
            (slides_data @ [slide_block idx slide_text slide_title has_title]) images')"

definition extract_pptx :: "pptx_file \<Rightarrow> error + block list \<times> image list" where
  "extract_pptx f =
     (case f of
        Inl e \<Rightarrow> Inl e
      | Inr prs \<Rightarrow> pptx_slides 1 prs [] [])"

text \<open>
  The text statements of the walk alone, and the block they lead to for one slide: the
  image list, which the walk carries along, plays no part in the block.
\<close>

fun slide_texts ::
  "nat \<Rightarrow> shape list \<Rightarrow> ustr list \<times> ustr \<times> bool \<Rightarrow> ustr list \<times> ustr \<times> bool" where
  "slide_texts idx [] st = st"
| "slide_texts idx (sh # rest) st = slide_texts idx rest (shape_text_step idx sh st)"

definition block_of_slide :: "nat \<Rightarrow> shape list \<Rightarrow> block" where
  "block_of_slide idx shapes =
     (case slide_texts idx shapes ([], py ''Slide '' @ str_of_nat idx, False) of
        (slide_text, slide_title, has_title) \<Rightarrow>
          slide_block idx slide_text slide_title has_title)"

text \<open>Every \<open>shape_type\<close> of the deck can be read.\<close>

definition type_readable :: "shape \<Rightarrow> bool" where
  "type_readable sh = (case shape_type sh of Inl e \<Rightarrow> False | Inr ty \<Rightarrow> True)"

definition types_readable :: "shape list list \<Rightarrow> bool" where
  "types_readable prs = list_all (list_all type_readable) prs"

section \<open>The flowing-document extractor\<close>

text \<open>
  \<open>str.isupper()\<close> is true when the string has an uppercase character and no lowercase
  or titlecase one.  The case of the 7-bit characters is fixed here; the case of the
  others is a table of Python's Unicode database, outside the repository, and is taken
  as the parameter \<open>ucd\<close>.
\<close>

datatype char_case = Upper | Lower | Titlecase | Uncased

definition case_of :: "(nat \<Rightarrow> char_case) \<Rightarrow> nat \<Rightarrow> char_case" where
  "case_of ucd c =
     (if c < 128 then
        (if 65 \<le> c \<and> c \<le> 90 then Upper
         else if 97 \<le> c \<and> c \<le> 122 then Lower
         else Uncased)
      else ucd c)"

definition isupper :: "(nat \<Rightarrow> char_case) \<Rightarrow> ustr \<Rightarrow> bool" where
  "isupper ucd s \<longleftrightarrow>
     \<not> list_ex (\<lambda>c. case_of ucd c = Lower \<or> case_of ucd c = Titlecase) s \<and>
     list_ex (\<lambda>c. case_of ucd c = Upper) s"

definition endswith :: "ustr \<Rightarrow> ustr \<Rightarrow> bool" where
  "endswith s p \<longleftrightarrow> length p \<le> length s \<and> drop (length s - length p) s = p"

definition startswith :: "ustr \<Rightarrow> ustr \<Rightarrow> bool" where
  "startswith s p \<longleftrightarrow> take (length p) s = p"

text \<open>\<open>p in s\<close> for strings.\<close>

fun contains :: "ustr \<Rightarrow> ustr \<Rightarrow> bool" where
  "contains p [] = (p = [])"
| "contains p (c # cs) = (startswith (c # cs) p \<or> contains p cs)"

text \<open>
  A paragraph with its text and the name of its style, which is absent when
  \<open>para.style\<close> (or the name of the style) is \<open>None\<close>; a relationship with the outcome
  of reading \<open>target_ref\<close> and of reading \<open>target_part.blob\<close>; the document with its
  paragraphs and the outcome of \<open>doc.part.rels\<close>.  The file is the outcome of
  \<open>Document(filepath)\<close>.
\<close>

record para =
  para_text :: ustr
  style_name :: "ustr option"

record rel =
  target_ref :: "error + ustr"
  target_blob :: "error + bytes"

record docx_doc =
  paragraphs :: "para list"
  rels :: "error + rel list"

type_synonym docx_file = "error + docx_doc"

text \<open>
  The heading test of the paragraph loop, on the stripped text.  \<open>and\<close> and \<open>or\<close>
  evaluate from the left and stop early, so \<open>para.style.name\<close> is read only for a
  text shorter than 100 characters that is neither upper-case nor ends with a colon;
  the read stands outside every \<open>try\<close> and raises \<open>AttributeError\<close> when the name is
  absent.
\<close>

definition is_heading :: "(nat \<Rightarrow> char_case) \<Rightarrow> ustr \<Rightarrow> para \<Rightarrow> error + bool" where
  "is_heading ucd text para =
     (if length text < 100 then
        (if isupper ucd text \<or> endswith text [58] then Inr True
         else (case style_name para of
                 None \<Rightarrow> Inl AttributeError
               | Some name \<Rightarrow> Inr (startswith name (py ''Heading''))))
      else Inr False)"

definition section_block :: "nat \<Rightarrow> ustr list \<Rightarrow> block" where
  "section_block section_count current_text =
     \<lparr>number = section_count, btype = Section,
      title = py ''Section '' @ str_of_nat section_count,
      content = clean_text (join [10] current_text), has_content = True\<rparr>"

definition heading_block :: "nat \<Rightarrow> ustr \<Rightarrow> block" where
  "heading_block section_count text =
     \<lparr>number = section_count, btype = Heading, title = text, content = [],
      has_content = False\<rparr>"

text \<open>
  The loop over \<open>doc.paragraphs\<close>, on the state
  \<open>(sections, current_text, section_count)\<close>.
\<close>

fun docx_paragraphs ::
  "(nat \<Rightarrow> char_case) \<Rightarrow> para list \<Rightarrow> block list \<times> ustr list \<times> nat \<Rightarrow>
   error + block list \<times> ustr list \<times> nat" where
  "docx_paragraphs ucd [] st = Inr st"
| "docx_paragraphs ucd (para # rest) (sections, current_text, section_count) =
     (let text = strip (para_text para)
      in if text = [] then docx_paragraphs ucd rest (sections, current_text, section_count)
         else
           (case is_heading ucd text para of
              Inl e \<Rightarrow> Inl e
            | Inr heading \<Rightarrow>
                if heading then
                  (if current_text \<noteq> [] then
                     docx_paragraphs ucd rest
                       (sections @ [section_block section_count current_text,
                                    heading_block (section_count + 1) text],
                        [], section_count + 1)
                   else
                     docx_paragraphs ucd rest
                       (sections @ [heading_block section_count text], current_text,
                        section_count))
                else docx_paragraphs ucd rest (sections, current_text @ [text], section_count)))"

definition docx_image :: "nat \<Rightarrow> bytes \<Rightarrow> image" where
  "docx_image n img =
     (let ext = (if take 4 img = [0x89, 0x50, 0x4E, 0x47] then py ''png''
                 else if take 2 img = [0xFF, 0xD8] then py ''jpeg''
                 else py ''png'')
      in \<lparr>image_id = py ''docx_img'' @ str_of_nat n, slide = 1,
          src = data_uri ext img, itype = py ''docx''\<rparr>)"

text \<open>
  The loop over \<open>rels.values()\<close>.  An exception while reading the blob skips the
  relationship; an exception while reading \<open>target_ref\<close> is caught by the outer
  handler and ends the walk, with the images collected so far.
\<close>

fun docx_rels :: "rel list \<Rightarrow> image list \<Rightarrow> image list" where
  "docx_rels [] images = images"
| "docx_rels (r # rest) images =
     (case target_ref r of
        Inl e \<Rightarrow> images
      | Inr ref \<Rightarrow>
          if contains (py ''image'') ref then
            (case target_blob r of
               Inl e \<Rightarrow> docx_rels rest images
             | Inr img \<Rightarrow> docx_rels rest (images @ [docx_image (length images) img]))
          else docx_rels rest images)"

definition document_block :: "para list \<Rightarrow> block" where
  "document_block ps =
     \<lparr>number = 1, btype = Document, title = py ''Document'',
      content = clean_text
        (join [10] (map para_text (filter (\<lambda>p. strip (para_text p) \<noteq> []) ps))),
      has_content = True\<rparr>"

definition extract_docx :: "(nat \<Rightarrow> char_case) \<Rightarrow> docx_file \<Rightarrow> error + block list \<times> image list" where
  "extract_docx ucd f =
     (case f of
        Inl e \<Rightarrow> Inl e
      | Inr doc \<Rightarrow>
          (case docx_paragraphs ucd (paragraphs doc) ([], [], 1) of
             Inl e \<Rightarrow> Inl e
           | Inr (sections, current_text, section_count) \<Rightarrow>
               (let sections' =
                      (if current_text \<noteq> []
                       then sections @ [section_block section_count current_text]
                       else sections);
                    images = (case rels doc of Inl e \<Rightarrow> [] | Inr rs \<Rightarrow> docx_rels rs []);
                    sections'' =
                      (if sections' = [] then [document_block (paragraphs doc)]
                       else sections')
                in Inr (sections'', images))))"

text \<open>
  The heading test of the paragraph returns: the paragraph is empty after stripping, and
  skipped before the test, or the test does not raise.
\<close>

definition heading_decided :: "(nat \<Rightarrow> char_case) \<Rightarrow> para \<Rightarrow> bool" where
  "heading_decided ucd p =
     (strip (para_text p) = [] \<or>
      (case is_heading ucd (strip (para_text p)) p of Inl e \<Rightarrow> False | Inr h \<Rightarrow> True))"

section \<open>Properties of a result\<close>

text \<open>The numbers of the blocks are \<open>1..K\<close> in order, \<open>K\<close> the count of blocks.\<close>

definition numbered_from_one :: "block list \<Rightarrow> bool" where
  "numbered_from_one bs \<longleftrightarrow> map number bs = [1..<Suc (length bs)]"

text \<open>
  The numbering of the flowing-document extractor: every block carries \<open>k\<close> plus the
  count of section blocks before it.
\<close>

fun numbered_by_sections :: "nat \<Rightarrow> block list \<Rightarrow> bool" where
  "numbered_by_sections k [] = True"
| "numbered_by_sections k (b # bs) =
     (number b = k \<and> numbered_by_sections (if btype b = Section then Suc k else k) bs)"

text \<open>Every image refers to the number of a block of the same result.\<close>

definition refs_resolve :: "block list \<Rightarrow> image list \<Rightarrow> bool" where
  "refs_resolve bs ims \<longleftrightarrow> list_all (\<lambda>im. slide im \<in> set (map number bs)) ims"

text \<open>
  The \<open>has_content\<close> flag follows the length of the body: more than 50 characters for a
  page block, more than 30 for a slide block and for a section block.
\<close>

definition significant_by_length :: "block list \<Rightarrow> bool" where
  "significant_by_length bs \<longleftrightarrow>
     list_all (\<lambda>b.
        (if btype b = Page then has_content b = (50 < length (content b))
         else if btype b = Slide \<or> btype b = Section
         then has_content b = (30 < length (content b))
         else True)) bs"

text \<open>
  What \<open>extract_pdf\<close> writes into \<open>has_content\<close>: the length test for the block of
  a page, and \<open>True\<close> for the block of the last resort, the one titled \<open>"Document"\<close>.
\<close>

definition pdf_block_ok :: "block \<Rightarrow> bool" where
  "pdf_block_ok b \<longleftrightarrow> btype b = Page \<and>
     has_content b = (50 < length (content b) \<or> title b = py ''Document'')"

text \<open>
  What \<open>extract_docx\<close> writes into \<open>has_content\<close>: a constant for each type of block.
\<close>

definition docx_block_ok :: "block \<Rightarrow> bool" where
  "docx_block_ok b \<longleftrightarrow>
     (btype b = Section \<and> has_content b) \<or>
     (btype b = Heading \<and> \<not> has_content b \<and> content b = []) \<or>
     (btype b = Document \<and> has_content b)"

section \<open>The text normalizer\<close>

lemma filter_dropWhile_disjoint:
  "(\<And>c. Q c \<Longrightarrow> \<not> P c) \<Longrightarrow> filter Q (dropWhile P xs) = filter Q xs"
  by (induction xs) auto

lemma filter_sub_runs:
  assumes "\<And>c. Q c \<Longrightarrow> \<not> P c" and "\<not> Q 32"
  shows "filter Q (sub_runs P xs) = filter Q xs"
  using assms
proof (induction P xs rule: sub_runs.induct)
  case (1 P)
  show ?case by simp
next
  case (2 P c cs)
  show ?case
  proof (cases "P c")
    case True
    then have "\<not> Q c" using 2 by blast
    moreover have "filter Q (sub_runs P (dropWhile P cs)) = filter Q (dropWhile P cs)"
      using 2 True by blast
    ultimately show ?thesis
      using True 2 by (simp add: filter_dropWhile_disjoint)
  next
    case False
    then show ?thesis using 2 by simp
  qed
qed

lemma filter_strip:
  assumes "\<And>c. Q c \<Longrightarrow> \<not> is_space c"
  shows "filter Q (strip s) = filter Q s"
proof -
  have "filter Q (strip s) = rev (filter Q (dropWhile is_space (rev (dropWhile is_space s))))"
    by (simp add: strip_def rev_filter)
  also have "\<dots> = rev (filter Q (rev (dropWhile is_space s)))"
    using assms by (simp add: filter_dropWhile_disjoint)
  also have "\<dots> = filter Q (dropWhile is_space s)"
    by (simp add: rev_filter)
  also have "\<dots> = filter Q s"
    using assms by (simp add: filter_dropWhile_disjoint)
  finally show ?thesis .
qed

lemma set_sub_runs: "set (sub_runs P xs) \<subseteq> insert 32 {c \<in> set xs. \<not> P c}"
proof (induction P xs rule: sub_runs.induct)
  case (1 P)
  show ?case by simp
next
  case (2 P c cs)
  show ?case
  proof (cases "P c")
    case True
    then have "set (sub_runs P (dropWhile P cs)) \<subseteq> insert 32 {c \<in> set (dropWhile P cs). \<not> P c}"
      using 2 by blast
    moreover have "set (dropWhile P cs) \<subseteq> set cs"
      by (simp add: set_dropWhileD subsetI)
    ultimately show ?thesis using True by auto
  next
    case False
    then show ?thesis using 2 by auto
  qed
qed

lemma set_strip: "set (strip s) \<subseteq> set s"
proof -
  have "set (strip s) \<subseteq> set (dropWhile is_space s)"
    unfolding strip_def by (metis set_rev set_dropWhileD subsetI)
  also have "\<dots> \<subseteq> set s" by (simp add: set_dropWhileD subsetI)
  finally show ?thesis .
qed

lemma clean_text_ascii: "c \<in> set (clean_text s) \<Longrightarrow> c < 128"
proof -
  assume a: "c \<in> set (clean_text s)"
  then have ne: "s \<noteq> []" by (auto simp: clean_text_def)
  with a have "c \<in> set (sub_runs non_ascii (sub_runs is_space s))"
    using set_strip by (auto simp: clean_text_def)
  then have "c = 32 \<or> \<not> non_ascii c" using set_sub_runs [of non_ascii] by blast
  then show ?thesis by (auto simp: non_ascii_def)
qed

lemma filter_clean_text: "filter ascii_non_space (clean_text s) = filter ascii_non_space s"
proof (cases "s = []")
  case True
  then show ?thesis by (simp add: clean_text_def)
next
  case False
  have k32: "\<not> ascii_non_space 32" by (simp add: ascii_non_space_def is_space_def)
  have "filter ascii_non_space (clean_text s) = filter ascii_non_space (sub_runs non_ascii (sub_runs is_space s))"
    using False filter_strip [of ascii_non_space] by (simp add: clean_text_def) (simp add: ascii_non_space_def)
  also have "\<dots> = filter ascii_non_space (sub_runs is_space s)"
    by (rule filter_sub_runs) (auto simp: ascii_non_space_def non_ascii_def is_space_def)
  also have "\<dots> = filter ascii_non_space s"
    by (rule filter_sub_runs) (auto simp: ascii_non_space_def is_space_def)
  finally show ?thesis .
qed

lemma single_spaced_Cons:
  "single_spaced (c # cs) \<longleftrightarrow>
     (is_space c \<longrightarrow> c = 32 \<and> (cs \<noteq> [] \<longrightarrow> \<not> is_space (hd cs))) \<and> single_spaced cs"
  by (cases cs) auto

lemma hd_sub_runs_not:
  "cs \<noteq> [] \<Longrightarrow> \<not> P (hd cs) \<Longrightarrow> sub_runs P cs \<noteq> [] \<and> hd (sub_runs P cs) = hd cs"
  by (cases cs) auto

lemma single_spaced_sub_runs: "single_spaced (sub_runs is_space xs)"
proof (induction "is_space" xs rule: sub_runs.induct)
  case 1
  show ?case by simp
next
  case (2 c cs)
  show ?case
  proof (cases "is_space c")
    case True
    let ?r = "dropWhile is_space cs"
    have ih: "single_spaced (sub_runs is_space ?r)" using 2 True by blast
    have "sub_runs is_space ?r \<noteq> [] \<Longrightarrow> \<not> is_space (hd (sub_runs is_space ?r))"
    proof -
      assume ne: "sub_runs is_space ?r \<noteq> []"
      then have r: "?r \<noteq> []" by (metis sub_runs.simps(1))
      then have "\<not> is_space (hd ?r)" by (rule hd_dropWhile)
      with r show ?thesis using hd_sub_runs_not [of ?r is_space] by simp
    qed
    with ih True show ?thesis by (simp add: single_spaced_Cons)
  next
    case False
    then show ?thesis using 2 by (simp add: single_spaced_Cons)
  qed
qed

lemma sub_runs_single_spaced: "single_spaced xs \<Longrightarrow> sub_runs is_space xs = xs"
proof (induction xs)
  case Nil
  show ?case by simp
next
  case (Cons c cs)
  then have ih: "sub_runs is_space cs = cs" by (simp add: single_spaced_Cons)
  show ?case
  proof (cases "is_space c")
    case True
    with Cons.prems have c: "c = 32" and h: "cs \<noteq> [] \<longrightarrow> \<not> is_space (hd cs)"
      by (auto simp: single_spaced_Cons)
    from h have "dropWhile is_space cs = cs" by (cases cs) auto
    with True c ih show ?thesis by simp
  next
    case False
    with ih show ?thesis by simp
  qed
qed

lemma sub_runs_none: "(\<And>c. c \<in> set xs \<Longrightarrow> \<not> P c) \<Longrightarrow> sub_runs P xs = xs"
  by (induction xs) auto

lemma single_spaced_append:
  "single_spaced (xs @ ys) \<Longrightarrow> single_spaced xs \<and> single_spaced ys"
proof (induction xs)
  case Nil
  then show ?case by simp
next
  case (Cons c cs)
  then show ?case by (cases cs) (auto simp: single_spaced_Cons)
qed

lemma rev_dropWhile_rev_split:
  "xs = rev (dropWhile P (rev xs)) @ rev (takeWhile P (rev xs))"
proof -
  have "rev xs = takeWhile P (rev xs) @ dropWhile P (rev xs)" by simp
  then have "rev (rev xs) = rev (takeWhile P (rev xs) @ dropWhile P (rev xs))"
    by (rule arg_cong)
  then show ?thesis by (simp only: rev_rev_ident rev_append)
qed

lemma strip_split:
  "\<exists>us vs. s = us @ strip s @ vs"
proof -
  let ?t = "dropWhile is_space s"
  have "s = takeWhile is_space s @ ?t" by simp
  moreover have "?t = strip s @ rev (takeWhile is_space (rev ?t))"
    unfolding strip_def by (rule rev_dropWhile_rev_split)
  ultimately show ?thesis by metis
qed

lemma single_spaced_strip: "single_spaced s \<Longrightarrow> single_spaced (strip s)"
proof -
  assume a: "single_spaced s"
  obtain us vs where "s = us @ strip s @ vs" using strip_split by blast
  with a have "single_spaced (us @ strip s @ vs)" by simp
  then have "single_spaced (strip s @ vs)" using single_spaced_append by blast
  then show ?thesis using single_spaced_append by blast
qed

lemma dropWhile_id: "xs = [] \<or> \<not> P (hd xs) \<Longrightarrow> dropWhile P xs = xs"
  by (cases xs) auto

lemma strip_idem: "strip (strip s) = strip s"
proof -
  let ?t = "dropWhile is_space s"
  let ?u = "rev (dropWhile is_space (rev ?t))"
  have u: "strip s = ?u" by (simp add: strip_def)
  have t: "?t = ?u @ rev (takeWhile is_space (rev ?t))"
    by (rule rev_dropWhile_rev_split)
  have "dropWhile is_space ?u = ?u"
  proof (cases "?u = []")
    case True
    then show ?thesis using dropWhile_id [of ?u is_space] by blast
  next
    case False
    then have "hd ?u = hd ?t" using t by (metis hd_append2)
    moreover have "?t \<noteq> []" using False t by (metis append_is_Nil_conv)
    then have "\<not> is_space (hd ?t)" by (rule hd_dropWhile)
    ultimately show ?thesis using dropWhile_id [of ?u is_space] by metis
  qed
  then have "strip ?u = rev (dropWhile is_space (rev ?u))" by (simp add: strip_def)
  also have "\<dots> = ?u" by (simp add: dropWhile_idem)
  finally show ?thesis using u by simp
qed

lemma clean_text_fixed:
  assumes ss: "single_spaced r" and asc: "\<And>c. c \<in> set r \<Longrightarrow> c < 128"
    and st: "strip r = r"
  shows "clean_text r = r"
proof (cases "r = []")
  case True
  then show ?thesis by (simp add: clean_text_def)
next
  case False
  have "sub_runs is_space r = r" using ss by (rule sub_runs_single_spaced)
  moreover have "sub_runs non_ascii r = r"
  proof (rule sub_runs_none)
    fix c assume "c \<in> set r"
    then have "c < 128" by (rule asc)
    then show "\<not> non_ascii c" by (simp add: non_ascii_def)
  qed
  ultimately show ?thesis using False st by (simp add: clean_text_def)
qed

lemma clean_text_ascii_idem:
  assumes asc: "\<And>c. c \<in> set s \<Longrightarrow> c < 128"
  shows "clean_text (clean_text s) = clean_text s"
proof (cases "s = []")
  case True
  then show ?thesis by (simp add: clean_text_def)
next
  case False
  let ?a = "sub_runs is_space s"
  have a_asc: "\<And>c. c \<in> set ?a \<Longrightarrow> \<not> non_ascii c"
  proof -
    fix c assume "c \<in> set ?a"
    then have "c = 32 \<or> c \<in> set s" using set_sub_runs [of is_space s] by blast
    then have "c < 128" using asc by auto
    then show "\<not> non_ascii c" by (simp add: non_ascii_def)
  qed
  then have "sub_runs non_ascii ?a = ?a" by (rule sub_runs_none)
  then have r: "clean_text s = strip ?a" using False by (simp add: clean_text_def)
  have "single_spaced (strip ?a)"
    by (rule single_spaced_strip) (rule single_spaced_sub_runs)
  moreover have "\<And>c. c \<in> set (strip ?a) \<Longrightarrow> c < 128"
    using set_strip [of ?a] a_asc by (fastforce simp: non_ascii_def)
  moreover have "strip (strip ?a) = strip ?a" by (rule strip_idem)
  ultimately have "clean_text (strip ?a) = strip ?a" by (rule clean_text_fixed)
  with r show ?thesis by simp
qed

text \<open>
  C2, as stated: \<open>clean_text(clean_text(s)) == clean_text(s)\<close> for every string \<open>s\<close>.
  It fails on the string of the code points 97, 32, 233, 32, 98 (\<open>a\<close>, space, e with
  acute accent, space, \<open>b\<close>): whitespace runs are collapsed before the non-ASCII run is
  replaced by a space, so the first pass leaves three spaces in a row and only the
  second pass collapses them.
\<close>

theorem clean_text_idempotent_counterexample:
  "clean_text (clean_text [97, 32, 233, 32, 98]) \<noteq> clean_text [97, 32, 233, 32, 98]"
  by (simp add: clean_text_def strip_def is_space_def non_ascii_def)

text \<open>
  C2, amended: for every string \<open>s\<close> of 7-bit ASCII characters,
  \<open>clean_text(clean_text(s)) == clean_text(s)\<close>; and for every string \<open>s\<close> whatsoever
  the result of a second application is a fixed point of \<open>clean_text\<close>.
\<close>

theorem clean_text_idempotent_on_ascii:
  "((\<forall>c \<in> set s. c < 128) \<longrightarrow> clean_text (clean_text s) = clean_text s) \<and>
   clean_text (clean_text (clean_text s)) = clean_text (clean_text s)"
proof
  show "(\<forall>c \<in> set s. c < 128) \<longrightarrow> clean_text (clean_text s) = clean_text s"
    using clean_text_ascii_idem [of s] by blast
  show "clean_text (clean_text (clean_text s)) = clean_text (clean_text s)"
    by (rule clean_text_ascii_idem) (rule clean_text_ascii)
qed

theorem clean_text_idempotent_on_ascii_witness:
  "list_all (\<lambda>c. c < 128) [32, 72, 105, 9, 10, 33, 32 :: nat] \<and>
   clean_text (clean_text [32, 72, 105, 9, 10, 33, 32]) = [72, 105, 32, 33] \<and>
   clean_text [32, 72, 105, 9, 10, 33, 32] = [72, 105, 32, 33]"
  using clean_text_idempotent_on_ascii [of "[32, 72, 105, 9, 10, 33, 32]"]
  by (simp add: clean_text_def strip_def is_space_def non_ascii_def)

text \<open>
  C10: \<open>clean_text\<close> keeps every 7-bit character that is not whitespace, control
  characters included: the non-whitespace ASCII characters of the output are those of
  the input, in the same order and number.  The output holds 7-bit characters only, and
  it need not be printable: the string of the single character \<open>0x01\<close> is returned as
  it is.
\<close>

theorem clean_text_keeps_ascii_control:
  "filter ascii_non_space (clean_text s) = filter ascii_non_space s \<and>
   (\<forall>c \<in> set (clean_text s). c < 128) \<and>
   clean_text [1] = [1]"
proof (intro conjI)
  show "filter ascii_non_space (clean_text s) = filter ascii_non_space s"
    by (rule filter_clean_text)
  show "\<forall>c \<in> set (clean_text s). c < 128"
    using clean_text_ascii by blast
  show "clean_text [1] = [1]"
    by (simp add: clean_text_def strip_def is_space_def non_ascii_def)
qed

theorem clean_text_keeps_ascii_control_witness:
  "filter ascii_non_space (clean_text [0, 9, 1, 233, 27, 31, 127, 32]) = [0, 1, 27, 127] \<and>
   list_all (\<lambda>c. c < 128) (clean_text [0, 9, 1, 233, 27, 31, 127, 32]) \<and>
   clean_text [0, 9, 1, 233, 27, 31, 127, 32] = [0, 32, 1, 32, 27, 32, 127]"
  using clean_text_keeps_ascii_control [of "[0, 9, 1, 233, 27, 31, 127, 32]"]
  by (simp add: clean_text_def strip_def is_space_def non_ascii_def ascii_non_space_def)

section \<open>The paginated extractor: the loops\<close>






lemma upt_0_Suc: "[0..<Suc m] = 0 # map Suc [0..<m]"
  by (simp add: upt_conv_Cons map_Suc_upt)

lemma filter_upt_Suc:
  "filter P [0..<Suc m] = (if P 0 then [0] else []) @ map Suc (filter (\<lambda>i. P (Suc i)) [0..<m])"
proof -
  show ?thesis by (simp only: upt_0_Suc) (simp add: filter_map o_def)
qed

lemma pdf_pages_blocks:
  "fst (pdf_pages n doc bs ims) =
     bs @ map (\<lambda>i. page_block (n + i) (clean_text (page_text (doc ! i))))
            (filter (\<lambda>i. clean_text (page_text (doc ! i)) \<noteq> []) [0..<length doc])"
proof (induction doc arbitrary: n bs ims)
  case Nil
  show ?case by simp
next
  case (Cons pg doc)
  show ?case
    by (simp only: pdf_pages.simps Let_def Cons.IH length_Cons filter_upt_Suc)
       (simp add: o_def)
qed


section \<open>The slide-deck extractor: the loops\<close>

lemma pptx_shapes_texts:
  "pptx_shapes idx shs (tst, ims) = Inr (tst', ims') \<Longrightarrow> tst' = slide_texts idx shs tst"
proof (induction shs arbitrary: tst ims)
  case Nil
  then show ?case by simp
next
  case (Cons sh shs)
  then show ?case by (auto split: sum.splits)
qed


lemma returns_Inr [simp]: "returns (Inr x)"
  by (simp add: returns_def)

lemma returns_Inl [simp]: "\<not> returns (Inl e)"
  by (simp add: returns_def)

lemma returns_iff: "returns r \<longleftrightarrow> (\<exists>x. r = Inr x)"
  by (cases r) simp_all

lemma shape_image_step_readable:
  "returns (shape_image_step idx sh ims) \<longleftrightarrow> type_readable sh"
  by (auto simp: shape_image_step_def type_readable_def split: sum.splits)

lemma pptx_shapes_returns:
  "returns (pptx_shapes idx shs (tst, ims)) \<longleftrightarrow> list_all type_readable shs"
proof (induction shs arbitrary: tst ims)
  case Nil
  show ?case by simp
next
  case (Cons sh shs)
  show ?case
  proof (cases "shape_image_step idx sh ims")
    case (Inl e)
    then have "\<not> type_readable sh" using shape_image_step_readable [of idx sh ims] by simp
    with Inl show ?thesis by simp
  next
    case (Inr ims')
    then have "type_readable sh" using shape_image_step_readable [of idx sh ims] by simp
    with Inr show ?thesis by (simp add: Cons.IH)
  qed
qed

lemma pptx_slides_blocks:
  "pptx_slides idx prs bs ims = Inr (bs', ims') \<Longrightarrow>
   bs' = bs @ map (\<lambda>i. block_of_slide (idx + i) (prs ! i)) [0..<length prs]"
proof (induction prs arbitrary: idx bs ims)
  case Nil
  then show ?case by simp
next
  case (Cons shapes prs)
  from Cons.prems obtain a b c ims1 where
    h: "pptx_shapes idx shapes (([], py ''Slide '' @ str_of_nat idx, False), ims) = Inr ((a, b, c), ims1)"
    and r: "pptx_slides (Suc idx) prs (bs @ [slide_block idx a b c]) ims1 = Inr (bs', ims')"
    by (auto split: sum.splits)
  from h have "(a, b, c) = slide_texts idx shapes ([], py ''Slide '' @ str_of_nat idx, False)"
    by (rule pptx_shapes_texts)
  then have st: "slide_texts idx shapes ([], py ''Slide '' @ str_of_nat idx, False) = (a, b, c)"
    by simp
  have sb: "slide_block idx a b c = block_of_slide idx shapes"
    by (simp add: block_of_slide_def st)
  have u: "[0..<Suc (length prs)] = 0 # map Suc [0..<length prs]" by (rule upt_0_Suc)
  have "bs' = (bs @ [slide_block idx a b c]) @
          map (\<lambda>i. block_of_slide (Suc idx + i) (prs ! i)) [0..<length prs]"
    using r by (rule Cons.IH)
  then show ?case by (simp only: sb length_Cons u) (simp add: o_def)
qed

lemma pptx_slides_returns:
  "returns (pptx_slides idx prs bs ims) \<longleftrightarrow> types_readable prs"
proof (induction prs arbitrary: idx bs ims)
  case Nil
  show ?case by (simp add: types_readable_def)
next
  case (Cons shapes prs)
  let ?st = "([], py ''Slide '' @ str_of_nat idx, False)"
  show ?case
  proof (cases "pptx_shapes idx shapes (?st, ims)")
    case (Inl e)
    then have "\<not> list_all type_readable shapes"
      using pptx_shapes_returns [of idx shapes ?st ims] by simp
    with Inl show ?thesis by (simp add: types_readable_def)
  next
    case (Inr res)
    then have ok: "list_all type_readable shapes"
      using pptx_shapes_returns [of idx shapes ?st ims] by simp
    obtain a b c ims1 where res: "res = ((a, b, c), ims1)" by (metis prod.exhaust)
    have "returns (pptx_slides (Suc idx) prs (bs @ [slide_block idx a b c]) ims1)
            \<longleftrightarrow> types_readable prs"
      by (rule Cons.IH)
    with Inr res ok show ?thesis by (simp add: types_readable_def)
  qed
qed




section \<open>The flowing-document extractor: the loops\<close>

lemma numbered_by_sections_append:
  "numbered_by_sections k (xs @ ys) \<longleftrightarrow>
     numbered_by_sections k xs \<and>
     numbered_by_sections (k + length (filter (\<lambda>b. btype b = Section) xs)) ys"
  by (induction xs arbitrary: k) auto

lemma docx_paragraphs_step:
  assumes "docx_paragraphs ucd (p # ps) (s, c, n) = Inr res"
  shows "(strip (para_text p) = [] \<and> docx_paragraphs ucd ps (s, c, n) = Inr res) \<or>
         (strip (para_text p) \<noteq> [] \<and> is_heading ucd (strip (para_text p)) p = Inr False \<and>
          docx_paragraphs ucd ps (s, c @ [strip (para_text p)], n) = Inr res) \<or>
         (strip (para_text p) \<noteq> [] \<and> is_heading ucd (strip (para_text p)) p = Inr True \<and> c = [] \<and>
          docx_paragraphs ucd ps (s @ [heading_block n (strip (para_text p))], c, n) = Inr res) \<or>
         (strip (para_text p) \<noteq> [] \<and> is_heading ucd (strip (para_text p)) p = Inr True \<and> c \<noteq> [] \<and>
          docx_paragraphs ucd ps
            (s @ [section_block n c, heading_block (n + 1) (strip (para_text p))], [], n + 1) = Inr res)"
  using assms by (auto simp: Let_def split: if_splits sum.splits)

lemma docx_paragraphs_numbered:
  assumes "numbered_by_sections 1 sections"
    and "section_count = Suc (length (filter (\<lambda>b. btype b = Section) sections))"
    and "docx_paragraphs ucd ps (sections, current_text, section_count) =
           Inr (sections', current_text', section_count')"
  shows "numbered_by_sections 1 sections' \<and>
         section_count' = Suc (length (filter (\<lambda>b. btype b = Section) sections'))"
  using assms
proof (induction ps arbitrary: sections current_text section_count)
  case Nil
  then show ?case by auto
next
  case (Cons p ps)
  let ?text = "strip (para_text p)"
  let ?res = "(sections', current_text', section_count')"
  let ?h = "sections @ [heading_block section_count ?text]"
  let ?sh = "sections @ [section_block section_count current_text,
                        heading_block (section_count + 1) ?text]"
  have nh: "numbered_by_sections 1 ?h"
    using Cons.prems(1,2) by (simp add: numbered_by_sections_append heading_block_def)
  have ch: "section_count = Suc (length (filter (\<lambda>b. btype b = Section) ?h))"
    using Cons.prems(2) by (simp add: heading_block_def)
  have nsh: "numbered_by_sections 1 ?sh"
    using Cons.prems(1,2)
    by (simp add: numbered_by_sections_append heading_block_def section_block_def)
  have csh: "section_count + 1 = Suc (length (filter (\<lambda>b. btype b = Section) ?sh))"
    using Cons.prems(2) by (simp add: heading_block_def section_block_def)
  from docx_paragraphs_step [OF Cons.prems(3)]
  consider
    "docx_paragraphs ucd ps (sections, current_text, section_count) = Inr ?res"
  | "docx_paragraphs ucd ps (sections, current_text @ [?text], section_count) = Inr ?res"
  | "docx_paragraphs ucd ps (?h, current_text, section_count) = Inr ?res"
  | "docx_paragraphs ucd ps (?sh, [], section_count + 1) = Inr ?res"
    by blast
  then show ?case
  proof cases
    case 1
    with Cons.prems(1,2) show ?thesis by (rule Cons.IH)
  next
    case 2
    with Cons.prems(1,2) show ?thesis by (rule Cons.IH)
  next
    case 3
    with nh ch show ?thesis by (rule Cons.IH)
  next
    case 4
    with nsh csh show ?thesis by (rule Cons.IH)
  qed
qed

lemma extract_docx_Inr:
  "extract_docx ucd (Inr d) = Inr (bs, ims) \<Longrightarrow>
   \<exists>s c n. docx_paragraphs ucd (paragraphs d) ([], [], 1) = Inr (s, c, n) \<and>
     bs = (if c \<noteq> [] then s @ [section_block n c]
           else if s = [] then [document_block (paragraphs d)] else s) \<and>
     ims = (case rels d of Inl e \<Rightarrow> [] | Inr rs \<Rightarrow> docx_rels rs [])"
  by (auto simp: extract_docx_def Let_def split: sum.splits prod.splits if_splits)

lemma extract_docx_Inl:
  "extract_docx ucd (Inr d) = Inl e \<Longrightarrow> docx_paragraphs ucd (paragraphs d) ([], [], 1) = Inl e"
  by (auto simp: extract_docx_def Let_def split: sum.splits prod.splits)

lemma extract_docx_numbered:
  "numbered_by_sections 1 (result_blocks (extract_docx ucd (Inr d)))"
proof (cases "extract_docx ucd (Inr d)")
  case (Inl e)
  then show ?thesis by (simp add: result_blocks_def)
next
  case (Inr res)
  obtain bs ims where res: "res = (bs, ims)" by (cases res)
  from Inr res obtain s c n where
    h: "docx_paragraphs ucd (paragraphs d) ([], [], 1) = Inr (s, c, n)"
    and bs: "bs = (if c \<noteq> [] then s @ [section_block n c]
           else if s = [] then [document_block (paragraphs d)] else s)"
    using extract_docx_Inr [of ucd d bs ims] by auto
  have inv: "numbered_by_sections 1 s \<and> n = Suc (length (filter (\<lambda>b. btype b = Section) s))"
    by (rule docx_paragraphs_numbered [OF _ _ h]) simp_all
  then have "numbered_by_sections 1 bs"
    by (simp add: bs numbered_by_sections_append section_block_def document_block_def)
  with Inr res show ?thesis by (simp add: result_blocks_def)
qed





lemma heading_decided_style: "style_name p \<noteq> None \<Longrightarrow> heading_decided ucd p"
  by (auto simp: heading_decided_def is_heading_def split: option.splits)

section \<open>Block numbers\<close>

lemmas eval_defs = clean_text_def strip_def is_space_def non_ascii_def py_def str_of_nat.simps
  extract_pdf_def extract_pptx_def extract_docx_def page_block_def pdf_image_def
  slide_block_def section_block_def heading_block_def document_block_def raw_block_def
  pdf_fallback_def result_blocks_def result_images_def is_heading_def isupper_def case_of_def
  endswith_def startswith_def pptx_image_def docx_image_def data_uri_def b64_char_def Let_def
  shape_text_step_def shape_image_step_def numbered_from_one_def refs_resolve_def
  block_of_slide_def significant_by_length_def returns_def type_readable_def
  types_readable_def heading_decided_def

lemma result_blocks_Inr: "result_blocks (Inr p) = fst p"
  by (simp add: result_blocks_def split: prod.splits)


lemma plumber_pages_ok:
  "plumber_pages i (map Inr texts) tc =
     (None, tc @ map (\<lambda>j. page_block (i + j) (clean_text (case texts ! j of None \<Rightarrow> [] | Some t \<Rightarrow> t)))
        (filter (\<lambda>j. clean_text (case texts ! j of None \<Rightarrow> [] | Some t \<Rightarrow> t) \<noteq> [])
           [0..<length texts]))"
proof (induction texts arbitrary: i tc)
  case Nil
  show ?case by simp
next
  case (Cons t texts)
  show ?case
    by (simp only: list.map plumber_pages.simps sum.case Let_def Cons.IH length_Cons filter_upt_Suc)
       (simp add: o_def)
qed

lemma sorted_numbers: "sorted_wrt (<) (map Suc (filter P [0..<n]))"
proof -
  have "sorted_wrt (<) (filter P [0..<n])" by (rule sorted_wrt_filter) simp
  then show ?thesis by (simp add: sorted_wrt_map)
qed

lemma number_page_block: "number (page_block i c) = Suc i"
  by (simp add: page_block_def)



lemma extract_pptx_returns: "returns (extract_pptx (Inr prs)) \<longleftrightarrow> types_readable prs"
  by (simp add: extract_pptx_def pptx_slides_returns)

lemma extract_pptx_Inr_blocks:
  "extract_pptx (Inr prs) = Inr (bs, ims) \<Longrightarrow>
   bs = map (\<lambda>i. block_of_slide (Suc i) (prs ! i)) [0..<length prs]"
  using pptx_slides_blocks [of 1 prs "[]" "[]" bs ims] by (simp add: extract_pptx_def)

lemma extract_pptx_blocks:
  "result_blocks (extract_pptx (Inr prs)) =
     (if types_readable prs then map (\<lambda>i. block_of_slide (Suc i) (prs ! i)) [0..<length prs]
      else [])"
proof (cases "extract_pptx (Inr prs)")
  case (Inl e)
  then have "\<not> types_readable prs" using extract_pptx_returns [of prs] by simp
  with Inl show ?thesis by (simp add: result_blocks_def)
next
  case (Inr res)
  obtain bs ims where res: "res = (bs, ims)" by (cases res)
  from Inr have "types_readable prs" using extract_pptx_returns [of prs] by simp
  moreover have "bs = map (\<lambda>i. block_of_slide (Suc i) (prs ! i)) [0..<length prs]"
    using Inr res by (simp add: extract_pptx_Inr_blocks)
  ultimately show ?thesis using Inr res by (simp add: result_blocks_def)
qed

lemma number_block_of_slide: "number (block_of_slide k shs) = k"
  by (simp add: block_of_slide_def slide_block_def Let_def split: prod.splits list.splits)

lemma extract_pptx_numbers:
  "types_readable prs \<Longrightarrow>
   map number (result_blocks (extract_pptx (Inr prs))) = [1..<Suc (length prs)]"
proof -
  assume "types_readable prs"
  then have "map number (result_blocks (extract_pptx (Inr prs))) = map Suc [0..<length prs]"
    by (simp add: extract_pptx_blocks o_def number_block_of_slide)
  also have "\<dots> = [1..<Suc (length prs)]" by (simp only: map_Suc_upt One_nat_def)
  finally show ?thesis .
qed


lemma extract_pdf_numbers:
  "map number (result_blocks (extract_pdf (f\<lparr>fitz := Inr doc\<rparr>))) =
     map Suc (filter (\<lambda>i. clean_text (page_text (doc ! i)) \<noteq> []) [0..<length doc])"
proof -
  have b: "result_blocks (extract_pdf (f\<lparr>fitz := Inr doc\<rparr>)) =
          map (\<lambda>i. page_block (0 + i) (clean_text (page_text (doc ! i))))
            (filter (\<lambda>i. clean_text (page_text (doc ! i)) \<noteq> []) [0..<length doc])"
    using pdf_pages_blocks [of 0 doc "[]" "[]"]
    by (simp add: extract_pdf_def result_blocks_Inr)
  show ?thesis by (simp only: b) (simp add: o_def number_page_block)
qed


text \<open>
  C1, as stated: for each of the three extractors the numbers of the emitted blocks are
  \<open>1..K\<close>.  It fails for \<open>extract_pdf\<close> on a document whose first page has no
  text and whose second page reads \<open>"a"\<close>: the only block carries the number 2.
\<close>

theorem block_numbers_counterexample:
  "\<not> numbered_from_one (result_blocks (extract_pdf
       \<lparr>fitz = Inr [\<lparr>page_text = [], page_images = []\<rparr>,
                    \<lparr>page_text = py ''a'', page_images = []\<rparr>],
        pdfplumber = Inl ImportError, raw_text = []\<rparr>))"
  by (simp add: eval_defs)

text \<open>
  C1, amended.  \<open>extract_pptx\<close> numbers its blocks \<open>1..K\<close>.  \<open>extract_pdf\<close>, on the
  primary path and on the fallback path whose pages are all read, numbers a block by
  the 1-based index of its page, and pages without text emit no block: the numbers are
  strictly increasing and have a gap at every empty page.  \<open>extract_docx\<close> gives every
  block one plus the count of section blocks before it, so a heading shares its number
  with the section that follows it.
\<close>

theorem block_numbers:
  "numbered_from_one (result_blocks (extract_pptx (Inr prs))) \<and>
   map number (result_blocks (extract_pdf (f\<lparr>fitz := Inr doc\<rparr>))) =
     map Suc (filter (\<lambda>i. clean_text (page_text (doc ! i)) \<noteq> []) [0..<length doc]) \<and>
   map number (result_blocks (extract_pdf
       (f\<lparr>fitz := Inl ImportError, pdfplumber := Inr (map Inr texts)\<rparr>))) =
     map Suc (filter (\<lambda>i. clean_text (case texts ! i of None \<Rightarrow> [] | Some t \<Rightarrow> t) \<noteq> [])
       [0..<length texts]) \<and>
   sorted_wrt (<) (map number (result_blocks (extract_pdf (f\<lparr>fitz := Inr doc\<rparr>)))) \<and>
   numbered_by_sections 1 (result_blocks (extract_docx ucd (Inr d)))"
proof (intro conjI)
  show "numbered_from_one (result_blocks (extract_pptx (Inr prs)))"
  proof (cases "types_readable prs")
    case True
    then have len: "length (result_blocks (extract_pptx (Inr prs))) = length prs"
      by (simp add: extract_pptx_blocks)
    show ?thesis
      by (simp only: numbered_from_one_def len extract_pptx_numbers [OF True])
  next
    case False
    then show ?thesis by (simp add: extract_pptx_blocks numbered_from_one_def)
  qed
next
  show n: "map number (result_blocks (extract_pdf (f\<lparr>fitz := Inr doc\<rparr>))) =
     map Suc (filter (\<lambda>i. clean_text (page_text (doc ! i)) \<noteq> []) [0..<length doc])"
    by (rule extract_pdf_numbers)
  show "sorted_wrt (<) (map number (result_blocks (extract_pdf (f\<lparr>fitz := Inr doc\<rparr>))))"
    by (simp only: n sorted_numbers)
next
  show "map number (result_blocks (extract_pdf
       (f\<lparr>fitz := Inl ImportError, pdfplumber := Inr (map Inr texts)\<rparr>))) =
     map Suc (filter (\<lambda>i. clean_text (case texts ! i of None \<Rightarrow> [] | Some t \<Rightarrow> t) \<noteq> [])
       [0..<length texts])"
    by (simp add: extract_pdf_def result_blocks_Inr pdf_fallback_def plumber_pages_ok o_def
        number_page_block)
next
  show "numbered_by_sections 1 (result_blocks (extract_docx ucd (Inr d)))"
    by (rule extract_docx_numbered)
qed

theorem block_numbers_witness:
  "map number (result_blocks (extract_pptx (Inr [[], []]))) = [1, 2] \<and>
   map number (result_blocks (extract_pdf
       \<lparr>fitz = Inr [\<lparr>page_text = [], page_images = []\<rparr>,
                    \<lparr>page_text = py ''a'', page_images = []\<rparr>],
        pdfplumber = Inl ImportError, raw_text = []\<rparr>)) = [2] \<and>
   map number (result_blocks (extract_pdf
       \<lparr>fitz = Inl ImportError, pdfplumber = Inr [Inr None, Inr (Some (py ''b''))],
        raw_text = []\<rparr>)) = [2] \<and>
   map number (result_blocks (extract_docx (\<lambda>c. Uncased)
       (Inr \<lparr>paragraphs = [\<lparr>para_text = py ''INTRO'', style_name = Some (py ''Normal'')\<rparr>,
                            \<lparr>para_text = py ''body'', style_name = Some (py ''Normal'')\<rparr>],
             rels = Inr []\<rparr>))) = [1, 1]"
  using block_numbers [where prs = "[[], []]"
      and f = "\<lparr>fitz = Inl ImportError, pdfplumber = Inl ImportError, raw_text = []\<rparr>"
      and doc = "[\<lparr>page_text = [], page_images = []\<rparr>, \<lparr>page_text = py ''a'', page_images = []\<rparr>]"
      and texts = "[None, Some (py ''b'')]" and ucd = "\<lambda>c. Uncased"
      and d = "\<lparr>paragraphs = [\<lparr>para_text = py ''INTRO'', style_name = Some (py ''Normal'')\<rparr>,
                            \<lparr>para_text = py ''body'', style_name = Some (py ''Normal'')\<rparr>],
             rels = Inr []\<rparr>"]
  by (simp add: eval_defs)

section \<open>Image references\<close>




section \<open>Blocks of the slide deck\<close>

lemma extract_pdf_blocks:
  "result_blocks (extract_pdf (f\<lparr>fitz := Inr doc\<rparr>)) =
     map (\<lambda>i. page_block i (clean_text (page_text (doc ! i))))
       (filter (\<lambda>i. clean_text (page_text (doc ! i)) \<noteq> []) [0..<length doc])"
  using pdf_pages_blocks [of 0 doc "[]" "[]"]
  by (simp add: extract_pdf_def result_blocks_Inr)


lemma btype_block_of_slide: "btype (block_of_slide k shs) = Slide"
  by (simp add: block_of_slide_def slide_block_def Let_def split: prod.splits list.splits)

lemma has_content_block_of_slide:
  "has_content (block_of_slide k shs) = (30 < length (content (block_of_slide k shs)))"
  by (simp add: block_of_slide_def slide_block_def Let_def split: prod.splits list.splits)

lemma types_readable_append:
  "types_readable (xs @ ys) \<longleftrightarrow> types_readable xs \<and> types_readable ys"
  by (simp add: types_readable_def)





text \<open>
  C4: every emitted block has a non-empty title, a positional placeholder when none can
  be inferred.  \<open>extract_pptx\<close> sets the placeholder \<open>"Slide N"\<close> and then overwrites
  it with the first fragment of the body whenever that fragment is shorter than 80
  characters, the empty fragment of an empty body included: a slide without text is
  emitted with the empty title.
\<close>

theorem empty_slide_title:
  "extract_pptx (Inr [[]]) =
     Inr ([\<lparr>number = 1, btype = Slide, title = [], content = [], has_content = False\<rparr>], [])"
  by (simp add: eval_defs)

section \<open>The significance flag\<close>

lemma title_page_block: "title (page_block i c) \<noteq> py ''Document''"
  by (simp add: page_block_def py_def)

lemma page_block_ok: "pdf_block_ok (page_block i c)"
  using title_page_block [of i c] by (simp add: pdf_block_ok_def) (simp add: page_block_def)

lemma raw_block_ok: "pdf_block_ok (raw_block t)"
  by (simp add: pdf_block_ok_def raw_block_def)

lemma plumber_pages_all:
  "list_all pdf_block_ok tc \<Longrightarrow> list_all pdf_block_ok (snd (plumber_pages i pages tc))"
proof (induction pages arbitrary: i tc)
  case Nil
  then show ?case by simp
next
  case (Cons p pages)
  show ?case
  proof (cases p)
    case (Inl e)
    with Cons.prems show ?thesis by simp
  next
    case (Inr x)
    let ?clean = "clean_text (case x of None \<Rightarrow> [] | Some t \<Rightarrow> t)"
    have "list_all pdf_block_ok (if ?clean \<noteq> [] then tc @ [page_block i ?clean] else tc)"
      using Cons.prems by (simp add: page_block_ok)
    then have "list_all pdf_block_ok (snd (plumber_pages (Suc i) pages
        (if ?clean \<noteq> [] then tc @ [page_block i ?clean] else tc)))"
      by (rule Cons.IH)
    with Inr show ?thesis by (simp add: Let_def)
  qed
qed

lemma pdf_fallback_all: "list_all pdf_block_ok (pdf_fallback f)"
proof (cases "pdfplumber f")
  case (Inl e)
  then show ?thesis by (simp add: pdf_fallback_def raw_block_ok)
next
  case (Inr pages)
  have "list_all pdf_block_ok (snd (plumber_pages 0 pages []))"
    by (rule plumber_pages_all) simp
  with Inr show ?thesis
    by (auto simp: pdf_fallback_def raw_block_ok split: prod.splits option.splits)
qed

lemma extract_pdf_all: "list_all pdf_block_ok (result_blocks (extract_pdf f))"
proof (cases "fitz f")
  case (Inr doc)
  then have "f = f\<lparr>fitz := Inr doc\<rparr>" by simp
  then have "result_blocks (extract_pdf f) =
     map (\<lambda>i. page_block i (clean_text (page_text (doc ! i))))
       (filter (\<lambda>i. clean_text (page_text (doc ! i)) \<noteq> []) [0..<length doc])"
    using extract_pdf_blocks [where f = f and doc = doc] by simp
  then show ?thesis by (simp add: list_all_iff page_block_ok)
next
  case (Inl e)
  then show ?thesis
    using pdf_fallback_all [of f]
    by (cases e) (simp_all add: extract_pdf_def result_blocks_def)
qed

lemma docx_paragraphs_all:
  "list_all docx_block_ok sections \<Longrightarrow>
   docx_paragraphs ucd ps (sections, current_text, section_count) = Inr (sections', c', n') \<Longrightarrow>
   list_all docx_block_ok sections'"
proof (induction ps arbitrary: sections current_text section_count)
  case Nil
  then show ?case by simp
next
  case (Cons p ps)
  let ?text = "strip (para_text p)"
  let ?res = "(sections', c', n')"
  have h: "docx_block_ok (heading_block n t)" for n t
    by (simp add: docx_block_ok_def heading_block_def)
  have s: "docx_block_ok (section_block n c)" for n c
    by (simp add: docx_block_ok_def section_block_def)
  from docx_paragraphs_step [OF Cons.prems(2)]
  consider
    "docx_paragraphs ucd ps (sections, current_text, section_count) = Inr ?res"
  | "docx_paragraphs ucd ps (sections, current_text @ [?text], section_count) = Inr ?res"
  | "docx_paragraphs ucd ps (sections @ [heading_block section_count ?text], current_text,
        section_count) = Inr ?res"
  | "docx_paragraphs ucd ps
       (sections @ [section_block section_count current_text,
                    heading_block (section_count + 1) ?text], [], section_count + 1) = Inr ?res"
    by blast
  then show ?case
  proof cases
    case 1
    with Cons.prems(1) show ?thesis by (rule Cons.IH)
  next
    case 2
    with Cons.prems(1) show ?thesis by (rule Cons.IH)
  next
    case 3
    have "list_all docx_block_ok (sections @ [heading_block section_count ?text])"
      using Cons.prems(1) by (simp add: h)
    then show ?thesis using 3 by (rule Cons.IH)
  next
    case 4
    have "list_all docx_block_ok (sections @ [section_block section_count current_text,
                    heading_block (section_count + 1) ?text])"
      using Cons.prems(1) by (simp add: h s)
    then show ?thesis using 4 by (rule Cons.IH)
  qed
qed

lemma extract_docx_all: "list_all docx_block_ok (result_blocks (extract_docx ucd (Inr d)))"
proof (cases "extract_docx ucd (Inr d)")
  case (Inl e)
  then show ?thesis by (simp add: result_blocks_def)
next
  case (Inr res)
  obtain bs ims where res: "res = (bs, ims)" by (cases res)
  from Inr res obtain s c n where
    h: "docx_paragraphs ucd (paragraphs d) ([], [], 1) = Inr (s, c, n)"
    and bs: "bs = (if c \<noteq> [] then s @ [section_block n c]
           else if s = [] then [document_block (paragraphs d)] else s)"
    using extract_docx_Inr [of ucd d bs ims] by auto
  have "list_all docx_block_ok s"
    by (rule docx_paragraphs_all [OF _ h]) simp
  then have "list_all docx_block_ok bs"
    by (simp add: bs docx_block_ok_def section_block_def document_block_def)
  with Inr res show ?thesis by (simp add: result_blocks_def)
qed

text \<open>
  C6, as stated: \<open>has_content\<close> tells whether the body is longer than 50 characters
  (page blocks) or 30 characters (slide and section blocks).  It fails for the section
  block of a document whose only paragraph reads \<open>"hi"\<close>: the body has two characters
  and \<open>has_content\<close> is true.
\<close>

theorem significance_counterexample:
  "\<not> significant_by_length (result_blocks (extract_docx (\<lambda>c. Uncased)
       (Inr \<lparr>paragraphs = [\<lparr>para_text = py ''hi'', style_name = Some (py ''Normal'')\<rparr>],
             rels = Inr []\<rparr>)))"
  by (simp add: eval_defs)

text \<open>
  C6, amended.  For a slide block \<open>has_content\<close> tells whether the body is longer than
  30 characters; for the block of a page, whether it is longer than 50.  The other
  blocks carry a constant: true for a section block, for the document block and for the
  last-resort block of \<open>extract_pdf\<close> (a page block titled \<open>"Document"\<close>), false for a
  heading block, whose body is empty.
\<close>

theorem significance:
  "list_all (\<lambda>b. btype b = Slide \<and> has_content b = (30 < length (content b)))
     (result_blocks (extract_pptx (Inr prs))) \<and>
   list_all (\<lambda>b. btype b = Page \<and> has_content b = (50 < length (content b)))
     (result_blocks (extract_pdf (f\<lparr>fitz := Inr doc\<rparr>))) \<and>
   list_all pdf_block_ok (result_blocks (extract_pdf g)) \<and>
   list_all docx_block_ok (result_blocks (extract_docx ucd (Inr d)))"
proof (intro conjI)
  show "list_all (\<lambda>b. btype b = Slide \<and> has_content b = (30 < length (content b)))
     (result_blocks (extract_pptx (Inr prs)))"
    using has_content_block_of_slide
    by (auto simp: extract_pptx_blocks list_all_iff btype_block_of_slide)
  show "list_all (\<lambda>b. btype b = Page \<and> has_content b = (50 < length (content b)))
     (result_blocks (extract_pdf (f\<lparr>fitz := Inr doc\<rparr>)))"
    by (simp add: extract_pdf_blocks list_all_iff page_block_def)
  show "list_all pdf_block_ok (result_blocks (extract_pdf g))"
    by (rule extract_pdf_all)
  show "list_all docx_block_ok (result_blocks (extract_docx ucd (Inr d)))"
    by (rule extract_docx_all)
qed

theorem significance_witness:
  "map has_content (result_blocks (extract_pptx (Inr [[\<lparr>shape_text = Some (py ''Hello''),
       shape_type = Inr (Some 17), shape_image = Inl OtherException\<rparr>]]))) = [False] \<and>
   map has_content (result_blocks (extract_pdf
     \<lparr>fitz = Inr [\<lparr>page_text = py ''a'', page_images = []\<rparr>],
      pdfplumber = Inl ImportError, raw_text = []\<rparr>)) = [False] \<and>
   map has_content (result_blocks (extract_pdf
     \<lparr>fitz = Inl ImportError, pdfplumber = Inl OtherException, raw_text = py ''x''\<rparr>)) = [True] \<and>
   map has_content (result_blocks (extract_docx (\<lambda>c. Uncased)
       (Inr \<lparr>paragraphs = [\<lparr>para_text = py ''INTRO'', style_name = Some (py ''Normal'')\<rparr>,
                            \<lparr>para_text = py ''hi'', style_name = Some (py ''Normal'')\<rparr>],
             rels = Inr []\<rparr>))) = [False, True]"
  using significance [where prs = "[[\<lparr>shape_text = Some (py ''Hello''),
       shape_type = Inr (Some 17), shape_image = Inl OtherException\<rparr>]]"
     and f = "\<lparr>fitz = Inl ImportError, pdfplumber = Inl ImportError, raw_text = []\<rparr>"
     and doc = "[\<lparr>page_text = py ''a'', page_images = []\<rparr>]"
     and g = "\<lparr>fitz = Inl ImportError, pdfplumber = Inl OtherException, raw_text = py ''x''\<rparr>"
     and ucd = "\<lambda>c. Uncased"
     and d = "\<lparr>paragraphs = [\<lparr>para_text = py ''INTRO'', style_name = Some (py ''Normal'')\<rparr>,
                            \<lparr>para_text = py ''hi'', style_name = Some (py ''Normal'')\<rparr>],
             rels = Inr []\<rparr>"]
  by (simp add: eval_defs)

section \<open>A heading before its section\<close>



lemma is_heading_False_iff:
  "is_heading ucd text p = Inr False \<longleftrightarrow>
     100 \<le> length text \<or>
     (\<not> isupper ucd text \<and> \<not> endswith text [58] \<and>
      (\<exists>name. style_name p = Some name \<and> \<not> startswith name (py ''Heading'')))"
  by (auto simp: is_heading_def split: option.splits)



section \<open>Images that fail\<close>












section \<open>The title of a slide\<close>

lemma split_on_nonempty: "split_on sep s \<noteq> []"
  by (induction s) (auto split: list.splits)

lemma split_on_no_sep: "sep \<notin> set s \<Longrightarrow> split_on sep s = [s]"
  by (induction s) auto

lemma set_clean_text: "set (clean_text s) \<subseteq> insert 32 (set s)"
proof (cases "s = []")
  case True
  then show ?thesis by (simp add: clean_text_def)
next
  case False
  have "set (sub_runs is_space s) \<subseteq> insert 32 (set s)"
    using set_sub_runs [of is_space s] by auto
  moreover have "set (sub_runs non_ascii (sub_runs is_space s)) \<subseteq> insert 32 (set (sub_runs is_space s))"
    using set_sub_runs [of non_ascii "sub_runs is_space s"] by auto
  ultimately have "set (strip (sub_runs non_ascii (sub_runs is_space s))) \<subseteq> insert 32 (set s)"
    using set_strip [of "sub_runs non_ascii (sub_runs is_space s)"] by blast
  with False show ?thesis by (simp add: clean_text_def)
qed

lemma strip_clean_text: "strip (clean_text s) = clean_text s"
  by (simp add: clean_text_def strip_idem) (simp add: strip_def)

lemma extract_pptx_block_at:
  "types_readable prs \<Longrightarrow> i < length prs \<Longrightarrow>
   result_blocks (extract_pptx (Inr prs)) ! i = block_of_slide (Suc i) (prs ! i)"
  by (simp add: extract_pptx_blocks)

lemma block_of_first_slide:
  assumes "shape_text sh = Some t" and "strip t \<noteq> []" and "length (strip t) < 100"
  shows "block_of_slide 1 [sh] =
     \<lparr>number = 1, btype = Slide, title = strip t, content = [], has_content = False\<rparr>"
  using assms
  by (simp add: block_of_slide_def shape_text_step_def slide_block_def clean_text_def)

lemma block_of_later_slide:
  assumes "shape_text sh = Some t" and "strip t \<noteq> []" and "k \<noteq> 1"
  shows "block_of_slide k [sh] = slide_block k [strip t] (py ''Slide '' @ str_of_nat k) False"
  using assms
  by (simp add: block_of_slide_def shape_text_step_def)

text \<open>
  C5, as stated: a single short text element is the title on the first slide, and on a
  later slide it is body and not the title.  The second half fails: the text
  \<open>"Hello"\<close> alone on slide 2 becomes the title of slide 2 and the body is empty, as
  on slide 1.
\<close>

theorem single_text_element_counterexample:
  "title (result_blocks (extract_pptx (Inr
      [[\<lparr>shape_text = Some (py ''Hello''), shape_type = Inr (Some 17), shape_image = Inl OtherException\<rparr>],
       [\<lparr>shape_text = Some (py ''Hello''), shape_type = Inr (Some 17), shape_image = Inl OtherException\<rparr>]]))
     ! 1) = py ''Hello'' \<and>
   content (result_blocks (extract_pptx (Inr
      [[\<lparr>shape_text = Some (py ''Hello''), shape_type = Inr (Some 17), shape_image = Inl OtherException\<rparr>],
       [\<lparr>shape_text = Some (py ''Hello''), shape_type = Inr (Some 17), shape_image = Inl OtherException\<rparr>]]))
     ! 1) = []"
  by (simp add: eval_defs)

text \<open>
  C5, amended.  In a deck in which the \<open>shape_type\<close> of every shape can be read, so
  that \<open>extract_pptx\<close> returns: a single text element whose stripped text is not empty
  and shorter than 100 characters is, on the first slide, the title of the slide, and
  the body is empty.  On a later slide the walk collects it as body text; the inference
  that follows takes the part of the cleaned text before the first full stop as the
  title when that part is shorter than 80 characters, and leaves the rest as the body.
  So a text without a full stop whose cleaned form is shorter than 80 characters is the
  title there too, with an empty body; only a first part of 80 characters or more leaves
  the text in the body, under the title \<open>"Slide N"\<close>.
\<close>

theorem single_text_element:
  assumes "shape_text sh = Some t" and "strip t \<noteq> []" and "length (strip t) < 100"
  shows
    "(types_readable ([sh] # rest) \<longrightarrow>
       returns (extract_pptx (Inr ([sh] # rest))) \<and>
       result_blocks (extract_pptx (Inr ([sh] # rest))) ! 0 =
         \<lparr>number = 1, btype = Slide, title = strip t, content = [], has_content = False\<rparr>) \<and>
     (pre \<noteq> [] \<and> types_readable (pre @ [sh] # rest) \<longrightarrow>
       returns (extract_pptx (Inr (pre @ [sh] # rest))) \<and>
       (let b = result_blocks (extract_pptx (Inr (pre @ [sh] # rest))) ! length pre;
            c = clean_text (strip t);
            l = hd (split_on 46 c)
        in number b = Suc (length pre) \<and>
           title b = (if length l < 80 then strip l
                      else py ''Slide '' @ str_of_nat (Suc (length pre))) \<and>
           content b = (if length l < 80 then strip (join [46] (tl (split_on 46 c))) else c) \<and>
           (46 \<notin> set t \<and> length c < 80 \<longrightarrow> title b = c \<and> content b = [])))"
proof (intro conjI impI)
  assume r: "types_readable ([sh] # rest)"
  then show "returns (extract_pptx (Inr ([sh] # rest)))"
    by (simp only: extract_pptx_returns)
  have "result_blocks (extract_pptx (Inr ([sh] # rest))) ! 0 = block_of_slide 1 [sh]"
    using extract_pptx_block_at [OF r, of 0] by simp
  then show "result_blocks (extract_pptx (Inr ([sh] # rest))) ! 0 =
       \<lparr>number = 1, btype = Slide, title = strip t, content = [], has_content = False\<rparr>"
    using block_of_first_slide [OF assms] by simp
next
  assume "pre \<noteq> [] \<and> types_readable (pre @ [sh] # rest)"
  then have ne: "pre \<noteq> []" and r: "types_readable (pre @ [sh] # rest)" by simp_all
  from r show "returns (extract_pptx (Inr (pre @ [sh] # rest)))"
    by (simp only: extract_pptx_returns)
  let ?k = "Suc (length pre)"
  let ?c = "clean_text (strip t)"
  let ?b = "result_blocks (extract_pptx (Inr (pre @ [sh] # rest))) ! length pre"
  have k: "?k \<noteq> 1" using ne by simp
  have "?b = block_of_slide ?k [sh]"
    using extract_pptx_block_at [OF r, of "length pre"] by simp
  then have b: "?b = slide_block ?k [strip t] (py ''Slide '' @ str_of_nat ?k) False"
    using block_of_later_slide [OF assms(1,2) k] by simp
  have n: "number ?b = ?k"
    by (simp add: b slide_block_def Let_def split: list.splits prod.splits)
  have ti: "title ?b = (if length (hd (split_on 46 ?c)) < 80 then strip (hd (split_on 46 ?c))
                    else py ''Slide '' @ str_of_nat ?k)"
    using split_on_nonempty [of 46 ?c]
    by (simp add: b slide_block_def Let_def split: list.splits)
  have co: "content ?b = (if length (hd (split_on 46 ?c)) < 80
                    then strip (join [46] (tl (split_on 46 ?c))) else ?c)"
    using split_on_nonempty [of 46 ?c]
    by (simp add: b slide_block_def Let_def split: list.splits)
  have sp: "title ?b = ?c \<and> content ?b = []" if "46 \<notin> set t" and "length ?c < 80"
  proof -
    have "46 \<notin> set (strip t)" using that(1) set_strip [of t] by blast
    then have "46 \<notin> set ?c" using set_clean_text [of "strip t"] by auto
    then have "split_on 46 ?c = [?c]" by (rule split_on_no_sep)
    then show ?thesis using that(2) by (simp add: ti co strip_clean_text) (simp add: strip_def)
  qed
  show "let b = ?b; c = ?c; l = hd (split_on 46 c)
      in number b = Suc (length pre) \<and>
         title b = (if length l < 80 then strip l
                    else py ''Slide '' @ str_of_nat (Suc (length pre))) \<and>
         content b = (if length l < 80 then strip (join [46] (tl (split_on 46 c))) else c) \<and>
         (46 \<notin> set t \<and> length c < 80 \<longrightarrow> title b = c \<and> content b = [])"
    unfolding Let_def using n ti co sp by blast
qed

theorem single_text_element_witness:
  "returns (extract_pptx (Inr [[], [\<lparr>shape_text = Some (py '' Hello. World ''),
        shape_type = Inr (Some 17), shape_image = Inl OtherException\<rparr>]])) \<and>
   result_blocks (extract_pptx (Inr [[\<lparr>shape_text = Some (py '' Hello. World ''),
        shape_type = Inr (Some 17), shape_image = Inl OtherException\<rparr>]])) ! 0 =
     \<lparr>number = 1, btype = Slide, title = py ''Hello. World'', content = [],
      has_content = False\<rparr> \<and>
   result_blocks (extract_pptx (Inr [[], [\<lparr>shape_text = Some (py '' Hello. World ''),
        shape_type = Inr (Some 17), shape_image = Inl OtherException\<rparr>]])) ! 1 =
     \<lparr>number = 2, btype = Slide, title = py ''Hello'', content = py ''World'',
      has_content = False\<rparr>"
proof -
  let ?sh = "\<lparr>shape_text = Some (py '' Hello. World ''), shape_type = Inr (Some 17),
              shape_image = Inl OtherException\<rparr>"
  have a: "shape_text ?sh = Some (py '' Hello. World '')" by simp
  have b: "strip (py '' Hello. World '') \<noteq> []" by (simp add: eval_defs)
  have c: "length (strip (py '' Hello. World '')) < 100" by (simp add: eval_defs)
  have d: "[[]] \<noteq> ([] :: shape list list)" by simp
  have r1: "types_readable ([?sh] # [])" by (simp add: types_readable_def type_readable_def)
  have r2: "types_readable ([[]] @ [?sh] # [])" by (simp add: types_readable_def type_readable_def)
  show ?thesis
    using single_text_element [OF a b c, of "[]" "[[]]"] d r1 r2
    by (simp add: eval_defs)
qed

end
